theory Spec2Isabelle
  imports Main
begin

section \<open>Go library functions the program calls\<close>

text \<open>
  Go strings are byte sequences, so a Go \<open>string\<close> is a \<open>char list\<close> here. The three
  characters that cannot be written inside an Isabelle string literal get a name.
\<close>

abbreviation nl :: char where "nl \<equiv> CHR 0x0A"
abbreviation dquote :: char where "dquote \<equiv> CHR 0x22"
abbreviation squote :: char where "squote \<equiv> CHR 0x27"

text \<open>
  \<open>strings.Split(s, sep)\<close> for a separator of one byte, which is how the program calls it
  (\<open>","\<close>, \<open>"|"\<close> and \<open>"x"\<close>). As in the library's \<open>genSplit\<close>, the loop looks for the
  next index of the separator, emits the text before it and goes on behind it; the rest
  of the string is the last element, so the result is never empty.
\<close>

function Split :: "string \<Rightarrow> char \<Rightarrow> string list" where
  "Split s sep =
     (if sep \<in> set s
      then takeWhile (\<lambda>c. c \<noteq> sep) s # Split (tl (dropWhile (\<lambda>c. c \<noteq> sep) s)) sep
      else [s])"
  by pat_completeness auto
termination
proof (relation "measure (\<lambda>(s, sep). length s)")
  show "wf (measure (\<lambda>(s, sep). length s))" by simp
next
  fix s :: string and sep :: char
  assume "sep \<in> set s"
  then have "dropWhile (\<lambda>c. c \<noteq> sep) s \<noteq> []" by auto
  then have "length (tl (dropWhile (\<lambda>c. c \<noteq> sep) s)) < length (dropWhile (\<lambda>c. c \<noteq> sep) s)"
    by simp
  also have "\<dots> \<le> length s" by (rule length_dropWhile_le)
  finally show "((tl (dropWhile (\<lambda>c. c \<noteq> sep) s), sep), (s, sep)) \<in> measure (\<lambda>(s, sep). length s)"
    by simp
qed

declare Split.simps [simp del]

text \<open>\<open>strings.Contains(s, substr)\<close>: some suffix of \<open>s\<close> starts with \<open>substr\<close>.\<close>

fun Contains :: "string \<Rightarrow> string \<Rightarrow> bool" where
  "Contains [] substr = (substr = [])"
| "Contains (c # s) substr = (take (length substr) (c # s) = substr \<or> Contains s substr)"

section \<open>Feed descriptors\<close>

record UDPAddressInfo =
  Address :: string
  Name :: string
  Resolution :: string
  Bandwidth :: string

subsection \<open>parseUDPAddresses\<close>

text \<open>
  The function returns the records and prints one line per rejected pair; the model
  returns both, the printed lines in the order of printing. The loop appends to one of
  the two for every pair.
\<close>

definition invalid_report :: "string \<Rightarrow> string" where
  "invalid_report pair = ''Invalid UDP address format: '' @ [squote] @ pair @ [squote, nl]"

fun parse_pairs ::
  "string list \<Rightarrow> UDPAddressInfo list \<times> string list \<Rightarrow> UDPAddressInfo list \<times> string list"
where
  "parse_pairs [] (result, printed) = (result, printed)"
| "parse_pairs (pair # pairs) (result, printed) =
     (let parts = Split pair CHR ''|'' in
      if length parts = 4
      then parse_pairs pairs
             (result @ [\<lparr>Address = parts ! 0, Name = parts ! 1,
                         Resolution = parts ! 2, Bandwidth = parts ! 3\<rparr>], printed)
      else parse_pairs pairs (result, printed @ [invalid_report pair]))"

definition parseUDPAddresses :: "string \<Rightarrow> UDPAddressInfo list \<times> string list" where
  "parseUDPAddresses input =
     (if input = [] then ([], [])
      else parse_pairs (Split input CHR '','') ([], []))"

text \<open>The record that the loop builds from the four parts of a pair.\<close>

definition info_of_parts :: "string list \<Rightarrow> UDPAddressInfo" where
  "info_of_parts parts =
     \<lparr>Address = parts ! 0, Name = parts ! 1, Resolution = parts ! 2, Bandwidth = parts ! 3\<rparr>"

definition four_fields :: "string \<Rightarrow> bool" where
  "four_fields pair = (length (Split pair CHR ''|'') = 4)"

text \<open>
  The flag's help text gives the format that \<open>parseUDPAddresses\<close> reads:
  \<open>address|name|resolution|bandwidth,address|name|resolution|bandwidth,...\<close>.
  \<open>formatUDPAddresses\<close> writes a list of records in that format (\<open>strings.Join\<close> of
  the fields with \<open>"|"\<close> and of the records with \<open>","\<close>). The program has no such
  function; it is here to state what parsing keeps of its input.
\<close>

fun Join :: "string list \<Rightarrow> char \<Rightarrow> string" where
  "Join [] sep = []"
| "Join [e] sep = e"
| "Join (e # e' # es) sep = e @ sep # Join (e' # es) sep"

definition formatUDPAddressInfo :: "UDPAddressInfo \<Rightarrow> string" where
  "formatUDPAddressInfo info =
     Join [Address info, Name info, Resolution info, Bandwidth info] CHR ''|''"

definition formatUDPAddresses :: "UDPAddressInfo list \<Rightarrow> string" where
  "formatUDPAddresses infos = Join (map formatUDPAddressInfo infos) CHR '',''"

section \<open>The master manifest\<close>

subsection \<open>GenerateM3U8String\<close>

text \<open>
  \<open>examples/muxer/main.go\<close>, lines 423 to 438. \<open>fmt.Sprintf\<close> with \<open>%s\<close> verbs
  inserts its string arguments unchanged, and the two \<open>WriteString\<close> calls append to an
  empty builder.
\<close>

definition GenerateM3U8String :: "string \<Rightarrow> string \<Rightarrow> string" where
  "GenerateM3U8String bandwidth resolution =
     (let codecs = ''avc1.42c01f'';
          frameRate = ''24.000'';
          resSplit = Split resolution CHR ''x''
      in if length resSplit = 2
         then (let resTag = resSplit ! 1
               in (''#EXT-X-STREAM-INF:BANDWIDTH='' @ bandwidth @
                   '',AVERAGE-BANDWIDTH='' @ bandwidth @
                   '',CODECS='' @ [dquote] @ codecs @ [dquote] @
                   '',RESOLUTION='' @ resolution @
                   '',FRAME-RATE='' @ frameRate @ [nl]) @
                  (''stream_'' @ resTag @ ''p.m3u8'' @ [nl, nl]))
         else [])"

text \<open>
  The function of the same name in the second program of the repository, the file
  \<open>unnamed/part_000\<close> of the sources (lines 186 to 201). It differs in the name of the
  linked playlist. What belongs to this program has a name that ends in \<open>_video\<close>.
\<close>

definition GenerateM3U8String_video :: "string \<Rightarrow> string \<Rightarrow> string" where
  "GenerateM3U8String_video bandwidth resolution =
     (let codecs = ''avc1.42c01f'';
          frameRate = ''24.000'';
          resSplit = Split resolution CHR ''x''
      in if length resSplit = 2
         then (let resTag = resSplit ! 1
               in (''#EXT-X-STREAM-INF:BANDWIDTH='' @ bandwidth @
                   '',AVERAGE-BANDWIDTH='' @ bandwidth @
                   '',CODECS='' @ [dquote] @ codecs @ [dquote] @
                   '',RESOLUTION='' @ resolution @
                   '',FRAME-RATE='' @ frameRate @ [nl]) @
                  (''video_'' @ resTag @ ''p.m3u8'' @ [nl, nl]))
         else [])"

subsection \<open>Assembly of the manifest in main\<close>

text \<open>
  \<open>main\<close> panics when the muxer does not start or when a UDP address cannot be bound;
  both are results of the model. What the operating system answers is an input:
  \<open>start_ok\<close> tells whether \<open>mux.Start()\<close> returned no error, and \<open>listen i a\<close>
  whether \<open>net.ListenPacket\<close> succeeded for the \<open>i\<close>-th descriptor, of address \<open>a\<close>.
  A muxer is identified by the index of the descriptor it was created for. What \<open>main\<close>
  prints and the goroutines it starts are not part of this model.
\<close>

datatype error = MuxStartFailed | ListenFailed string

definition header :: string where
  "header = ''#EXTM3U'' @ [nl] @ ''#EXT-X-VERSION:9'' @ [nl] @
            ''#EXT-X-INDEPENDENT-SEGMENTS'' @ [nl, nl]"

text \<open>
  The loop of \<open>examples/muxer/main.go\<close>, lines 305 to 339: it appends to the manifest
  text, binds the socket and registers the descriptor's muxer under the descriptor's name.
\<close>

fun feed_loop ::
  "(nat \<Rightarrow> string \<Rightarrow> bool) \<Rightarrow> nat \<Rightarrow> UDPAddressInfo list \<Rightarrow>
   string \<times> (string \<rightharpoonup> nat) \<Rightarrow> error + string \<times> (string \<rightharpoonup> nat)"
where
  "feed_loop listen index [] (m3u8String, muxMap) = Inr (m3u8String, muxMap)"
| "feed_loop listen index (info # udpInfo) (m3u8String, muxMap) =
     (let m3u8String' = m3u8String @ GenerateM3U8String (Bandwidth info) (Resolution info)
      in if \<not> listen index (Address info) then Inl (ListenFailed (Address info))
         else feed_loop listen (Suc index) udpInfo
                (m3u8String', muxMap(Name info \<mapsto> index)))"

text \<open>
  \<open>main\<close> of \<open>examples/muxer/main.go\<close>, lines 269 to 351: the text passed to
  \<open>GenerateMainManifest\<close>, which is also the final value of the global \<open>m3u8String\<close>,
  and the registry.
\<close>

definition main_manifest ::
  "bool \<Rightarrow> (nat \<Rightarrow> string \<Rightarrow> bool) \<Rightarrow> string \<Rightarrow> error + string \<times> (string \<rightharpoonup> nat)"
where
  "main_manifest start_ok listen udpAddresses =
     (if \<not> start_ok then Inl MuxStartFailed
      else (let udpInfo = fst (parseUDPAddresses udpAddresses)
            in case feed_loop listen 0 udpInfo ([], Map.empty) of
                 Inl e \<Rightarrow> Inl e
               | Inr (m3u8String, muxMap) \<Rightarrow> Inr (header @ m3u8String, muxMap)))"

text \<open>
  The loop and \<open>main\<close> of the second program (\<open>unnamed/part_000\<close>, lines 49 to 105):
  no registry, and one more call of \<open>GenerateM3U8String\<close> with constant arguments
  behind the loop.
\<close>

fun feed_loop_video ::
  "(nat \<Rightarrow> string \<Rightarrow> bool) \<Rightarrow> nat \<Rightarrow> UDPAddressInfo list \<Rightarrow> string \<Rightarrow> error + string"
where
  "feed_loop_video listen index [] m3u8String = Inr m3u8String"
| "feed_loop_video listen index (info # udpInfo) m3u8String =
     (let m3u8String' =
            m3u8String @ GenerateM3U8String_video (Bandwidth info) (Resolution info)
      in if \<not> listen index (Address info) then Inl (ListenFailed (Address info))
         else feed_loop_video listen (Suc index) udpInfo m3u8String')"

definition main_manifest_video ::
  "bool \<Rightarrow> (nat \<Rightarrow> string \<Rightarrow> bool) \<Rightarrow> string \<Rightarrow> error + string"
where
  "main_manifest_video start_ok listen udpAddresses =
     (if \<not> start_ok then Inl MuxStartFailed
      else (let udpInfo = fst (parseUDPAddresses udpAddresses)
            in case feed_loop_video listen 0 udpInfo [] of
                 Inl e \<Rightarrow> Inl e
               | Inr m3u8String \<Rightarrow>
                   Inr (header @
                        (m3u8String @ GenerateM3U8String_video ''1000000'' ''1280x720''))))"

text \<open>
  What the claims say the manifest is: one block per descriptor whose resolution splits
  in two at \<open>x\<close>, written out without reference to the functions above.
\<close>

definition valid_resolution :: "string \<Rightarrow> bool" where
  "valid_resolution resolution = (count_list resolution CHR ''x'' = 1)"

definition height_of :: "string \<Rightarrow> string" where
  "height_of resolution = tl (dropWhile (\<lambda>c. c \<noteq> CHR ''x'') resolution)"

definition stream_inf_block :: "string \<Rightarrow> string \<Rightarrow> string \<Rightarrow> string" where
  "stream_inf_block link bandwidth resolution =
     ''#EXT-X-STREAM-INF:BANDWIDTH='' @ bandwidth @ '',AVERAGE-BANDWIDTH='' @ bandwidth @
     '',CODECS='' @ [dquote] @ ''avc1.42c01f'' @ [dquote] @
     '',RESOLUTION='' @ resolution @ '',FRAME-RATE=24.000'' @ [nl] @
     link @ ''_'' @ height_of resolution @ ''p.m3u8'' @ [nl, nl]"

definition blocks_of :: "string \<Rightarrow> UDPAddressInfo list \<Rightarrow> string" where
  "blocks_of link udpInfo =
     concat (map (\<lambda>info. stream_inf_block link (Bandwidth info) (Resolution info))
                 (filter (\<lambda>info. valid_resolution (Resolution info)) udpInfo))"

section \<open>The HTTP handler\<close>

text \<open>
  A response is either written by the handler itself (content type, status code, body),
  or left to the muxer found in the registry, or the library's not-found reply.
\<close>

datatype 'm response = Response string nat string | Handle 'm | NotFound

text \<open>
  \<open>for resolution, mux := range muxMap\<close>: Go does not fix the order in which a map is
  iterated, so the entries come as a list of the map's pairs in some order.
\<close>

definition range_of :: "(string \<rightharpoonup> 'm) \<Rightarrow> (string \<times> 'm) list \<Rightarrow> bool" where
  "range_of muxMap entries = (distinct (map fst entries) \<and> map_of entries = muxMap)"

fun range_muxMap :: "(string \<times> 'm) list \<Rightarrow> string \<Rightarrow> 'm response" where
  "range_muxMap [] path = NotFound"
| "range_muxMap ((resolution, mux) # entries) path =
     (if Contains path resolution then Handle mux else range_muxMap entries path)"

definition handleM3u8Urls ::
  "string \<Rightarrow> string \<Rightarrow> (string \<times> 'm) list \<Rightarrow> string \<Rightarrow> 'm response"
where
  "handleM3u8Urls m3u8String index entries path =
     (if path = ''/video.m3u8''
      then Response ''application/vnd.apple.mpegurl'' 200 m3u8String
      else if path = ''/'' then Response ''text/html'' 200 index
      else range_muxMap entries path)"

section \<open>Reading a feed\<close>

subsection \<open>The timestamp decoder\<close>

text \<open>
  The decoder is \<open>mpegts.TimeDecoder\<close> of the library \<open>mediacommon\<close>, which is not
  among the sources. Its definitions follow section 4.1 of the spec: the first raw value
  initialises the epoch; every later call computes the signed difference from the
  previous raw value modulo the clock modulus and adds it to a running total. The result
  is the running total, in ticks of the 90 kHz clock; the conversion of ticks to a
  duration is monotone and not modelled. Raw values and totals are unbounded integers.
\<close>

text \<open>Modelled from the spec: the clock modulus, \<open>2^33\<close> for the 90 kHz clock.\<close>

definition clock_modulus :: int where
  "clock_modulus = 2 ^ 33"

text \<open>
  Modelled from the spec: the state of \<open>mpegts.TimeDecoder\<close>, the previous raw value
  and the running total.
\<close>

record TimeDecoder =
  prev :: int
  overall :: int

text \<open>
  Modelled from the spec: \<open>mpegts.NewTimeDecoder\<close>. The raw value it is given is the
  epoch: the total is zero there.
\<close>

definition NewTimeDecoder :: "int \<Rightarrow> TimeDecoder" where
  "NewTimeDecoder start = \<lparr>prev = start, overall = 0\<rparr>"

text \<open>
  Modelled from the spec: the signed difference of two raw values modulo the clock
  modulus, which is the representative of the difference in \<open>[-2^32, 2^32)\<close>.
\<close>

definition signed_diff :: "int \<Rightarrow> int \<Rightarrow> int" where
  "signed_diff ts p =
     (let d = (ts - p) mod clock_modulus
      in if d < clock_modulus div 2 then d else d - clock_modulus)"

text \<open>
  Modelled from the spec: \<open>TimeDecoder.Decode\<close>. It adds the signed difference from
  the previous raw value to the total, remembers the raw value and returns the total.
\<close>

definition Decode :: "TimeDecoder \<Rightarrow> int \<Rightarrow> TimeDecoder \<times> int" where
  "Decode d ts =
     (let total = overall d + signed_diff ts (prev d)
      in (\<lparr>prev = ts, overall = total\<rparr>, total))"

text \<open>
  The callbacks that \<open>setupMPEGTSReader\<close> registers (lines 145 to 157 and 162 to 169
  of \<open>unnamed/part_000\<close>, the same in \<open>examples/muxer/main.go\<close>) share the variable \<open>timeDec\<close>: the first call creates the decoder from its raw value,
  and every call decodes. \<open>decode_all\<close> is the sequence of values \<open>pts\<close> that the
  callbacks pass to the muxer for a sequence of raw values.
\<close>

definition onData :: "TimeDecoder option \<Rightarrow> int \<Rightarrow> TimeDecoder option \<times> int" where
  "onData timeDec rawPTS =
     (let d = (case timeDec of None \<Rightarrow> NewTimeDecoder rawPTS | Some d \<Rightarrow> d);
          (d', pts) = Decode d rawPTS
      in (Some d', pts))"

fun decode_all :: "TimeDecoder option \<Rightarrow> int list \<Rightarrow> int list" where
  "decode_all timeDec [] = []"
| "decode_all timeDec (rawPTS # raws) =
     (let (timeDec', pts) = onData timeDec rawPTS in pts # decode_all timeDec' raws)"

subsection \<open>The read loop and the process\<close>

text \<open>
  \<open>for { err := r.Read(); if err != nil { panic(err) } }\<close> over the results of the calls
  of \<open>r.Read()\<close> so far, \<open>None\<close> for \<open>nil\<close>. The loop has no exit: the result is the
  panic it raised, or \<open>None\<close> while it is still reading.
\<close>

fun read_loop :: "string option list \<Rightarrow> string option" where
  "read_loop [] = None"
| "read_loop (None # reads) = read_loop reads"
| "read_loop (Some err # reads) = Some err"

text \<open>
  \<open>setupMPEGTSReader\<close> up to and with the loop: the three panics before it, for a muxer
  that does not start, a reader that cannot be created and a stream without H264 track.
\<close>

definition setupMPEGTSReader ::
  "string option \<Rightarrow> string option \<Rightarrow> bool \<Rightarrow> string option list \<Rightarrow> string option"
where
  "setupMPEGTSReader start_err reader_err found reads =
     (case start_err of Some err \<Rightarrow> Some err
      | None \<Rightarrow>
          (case reader_err of Some err \<Rightarrow> Some err
           | None \<Rightarrow> if \<not> found then Some ''H264 track not found'' else read_loop reads))"

text \<open>
  The process runs one goroutine per feed, \<open>defer wg.Done(); setupMPEGTSReader(...)\<close>.
  No goroutine calls \<open>recover\<close>, and in Go a panic that leaves a goroutine ends the
  program. A running process is, for each feed that has entered its read loop, the
  results of its calls of \<open>r.Read()\<close> so far. An event \<open>(i, r)\<close> is the return of feed
  \<open>i\<close>'s pending \<open>r.Read()\<close> with the result \<open>r\<close>; the events come in the order in
  which they happen. An exited process takes no event.
\<close>

datatype process = Running "string option list list" | Exited string

fun deliver :: "process \<Rightarrow> nat \<times> string option \<Rightarrow> process" where
  "deliver (Exited p) ev = Exited p"
| "deliver (Running feeds) (i, r) =
     (if i < length feeds
      then (let reads = feeds ! i @ [r]
            in case setupMPEGTSReader None None True reads of
                 Some p \<Rightarrow> Exited p
               | None \<Rightarrow> Running (feeds[i := reads]))
      else Running feeds)"

definition run :: "process \<Rightarrow> (nat \<times> string option) list \<Rightarrow> process" where
  "run p events = foldl deliver p events"

text \<open>The process at the moment when \<open>n\<close> feeds have entered their read loops.\<close>

definition ingesting :: "nat \<Rightarrow> process" where
  "ingesting n = Running (replicate n [])"

section \<open>Auxiliary definitions for the statements\<close>

text \<open>An environment in which every address can be bound.\<close>

definition listen_ok :: "nat \<Rightarrow> string \<Rightarrow> bool" where
  "listen_ok i address = True"

text \<open>The number of positions of a text at which a given word starts.\<close>

fun occurrences :: "string \<Rightarrow> string \<Rightarrow> nat" where
  "occurrences [] word = (if word = [] then 1 else 0)"
| "occurrences (c # s) word =
     (if take (length word) (c # s) = word then 1 else 0) + occurrences s word"

text \<open>
  The two feeds of the end-to-end scenario of the spec, as a value of the flag. The
  addresses are written \<open>host:port\<close>, the form that \<open>net.ListenPacket\<close> takes for the
  network \<open>udp\<close>; with a scheme in front, as the spec writes them, no address can be
  bound and \<open>main\<close> panics at the first descriptor.
\<close>

definition two_feeds :: string where
  "two_feeds =
     ''127.0.0.1:9000|A|640x360|200000,127.0.0.1:9001|B|1280x720|1000000''"

text \<open>The descriptors of these two feeds, and one with the resolution \<open>720\<close>.\<close>

definition feed_A :: UDPAddressInfo where
  "feed_A = \<lparr>Address = ''127.0.0.1:9000'', Name = ''A'', Resolution = ''640x360'',
              Bandwidth = ''200000''\<rparr>"

definition feed_B :: UDPAddressInfo where
  "feed_B = \<lparr>Address = ''127.0.0.1:9001'', Name = ''B'', Resolution = ''1280x720'',
              Bandwidth = ''1000000''\<rparr>"

definition feed_720 :: UDPAddressInfo where
  "feed_720 = \<lparr>Address = ''127.0.0.1:9002'', Name = ''C'', Resolution = ''720'',
                Bandwidth = ''500000''\<rparr>"

text \<open>An environment in which the first three addresses can be bound.\<close>

definition listen_three :: "nat \<Rightarrow> string \<Rightarrow> bool" where
  "listen_three i address = (i < 3)"

text \<open>
  Two consecutive samples of a clock that runs forward: the later one is not earlier, and
  less than half the clock modulus later. The samples are clock values before they are
  reduced modulo the clock modulus.
\<close>

definition forward_step :: "int \<Rightarrow> int \<Rightarrow> bool" where
  "forward_step a b = (a \<le> b \<and> b - a < clock_modulus div 2)"

section \<open>Facts about Split\<close>

lemma Split_Nil: "Split [] sep = [[]]"
  by (simp add: Split.simps)

lemma Split_Cons:
  "Split (c # s) sep =
     (if c = sep then [] # Split s sep
      else (c # hd (Split s sep)) # tl (Split s sep))"
proof (cases "c = sep")
  case True
  then show ?thesis by (simp add: Split.simps [of "sep # s"])
next
  case False
  then show ?thesis
    by (cases "sep \<in> set s") (simp_all add: Split.simps [of "c # s"] Split.simps [of s])
qed

lemma Split_not_Nil: "Split s sep \<noteq> []"
  by (subst Split.simps) simp

text \<open>For evaluation: the recursive call is written once.\<close>

lemma Split_step:
  "Split (c # s) sep =
     (if c = sep then [] # Split s sep
      else (case Split s sep of [] \<Rightarrow> [[c]] | e # es \<Rightarrow> (c # e) # es))"
  using Split_not_Nil [of s sep] by (cases "Split s sep") (simp_all add: Split_Cons)

lemma length_Split: "length (Split s sep) = Suc (count_list s sep)"
  by (induction s) (auto simp: Split_Nil Split_Cons Split_not_Nil)

lemma Split_no_sep: "sep \<notin> set s \<Longrightarrow> Split s sep = [s]"
  by (simp add: Split.simps)

lemma takeWhile_sep: "sep \<notin> set p \<Longrightarrow> takeWhile (\<lambda>c. c \<noteq> sep) (p @ sep # r) = p"
  by (induction p) auto

lemma dropWhile_sep: "sep \<notin> set p \<Longrightarrow> dropWhile (\<lambda>c. c \<noteq> sep) (p @ sep # r) = sep # r"
  by (induction p) auto

lemma Split_append_sep:
  "sep \<notin> set p \<Longrightarrow> Split (p @ sep # r) sep = p # Split r sep"
  by (subst Split.simps) (simp add: takeWhile_sep dropWhile_sep)

lemma Split_parts_no_sep: "p \<in> set (Split s sep) \<Longrightarrow> sep \<notin> set p"
proof (induction s arbitrary: p)
  case Nil
  then show ?case by (simp add: Split_Nil)
next
  case (Cons c s)
  have ne: "Split s sep \<noteq> []" by (rule Split_not_Nil)
  show ?case
  proof (cases "c = sep")
    case True
    with Cons show ?thesis by (auto simp: Split_Cons)
  next
    case False
    with Cons.prems have "p = c # hd (Split s sep) \<or> p \<in> set (tl (Split s sep))"
      by (simp add: Split_Cons)
    then show ?thesis
    proof
      assume "p = c # hd (Split s sep)"
      moreover have "sep \<notin> set (hd (Split s sep))"
        using Cons.IH [of "hd (Split s sep)"] ne by simp
      ultimately show ?thesis using False by simp
    next
      assume "p \<in> set (tl (Split s sep))"
      then have "p \<in> set (Split s sep)" using ne by (auto dest: list.set_sel(2))
      then show ?thesis by (rule Cons.IH)
    qed
  qed
qed

lemma Join_Cons: "Join (e # es) sep = (if es = [] then e else e @ sep # Join es sep)"
  by (cases es) simp_all

lemma Join_Split: "Join (Split s sep) sep = s"
proof (induction s)
  case Nil
  then show ?case by (simp add: Split_Nil)
next
  case (Cons c s)
  obtain e es where S: "Split s sep = e # es"
    using Split_not_Nil [of s sep] by (cases "Split s sep") auto
  from Cons S show ?case
    by (auto simp: Split_Cons Join_Cons split: if_splits)
qed

lemma Split_Join:
  "ps \<noteq> [] \<Longrightarrow> \<forall>p\<in>set ps. sep \<notin> set p \<Longrightarrow> Split (Join ps sep) sep = ps"
proof (induction ps)
  case Nil
  then show ?case by simp
next
  case (Cons p ps)
  show ?case
  proof (cases "ps = []")
    case True
    with Cons.prems show ?thesis by (simp add: Split_no_sep)
  next
    case False
    with Cons show ?thesis by (simp add: Join_Cons Split_append_sep)
  qed
qed

section \<open>Facts about parseUDPAddresses\<close>

lemma parse_pairs_eq:
  "parse_pairs pairs (result, printed) =
     (result @ map (\<lambda>pair. info_of_parts (Split pair CHR ''|'')) (filter four_fields pairs),
      printed @ map invalid_report (filter (\<lambda>pair. \<not> four_fields pair) pairs))"
  by (induction pairs arbitrary: result printed)
     (simp_all add: Let_def info_of_parts_def four_fields_def)

lemma format_info_of_parts:
  assumes "four_fields pair"
  shows "formatUDPAddressInfo (info_of_parts (Split pair CHR ''|'')) = pair"
proof -
  from assms obtain a b c d where S: "Split pair CHR ''|'' = [a, b, c, d]"
    by (auto simp: four_fields_def length_Suc_conv numeral_eq_Suc)
  have "Join (Split pair CHR ''|'') CHR ''|'' = pair" by (rule Join_Split)
  with S show ?thesis
    by (simp add: formatUDPAddressInfo_def info_of_parts_def)
qed

lemma format_parsed:
  "map formatUDPAddressInfo (fst (parseUDPAddresses input)) =
     filter four_fields (Split input CHR '','')"
proof (cases "input = []")
  case True
  then show ?thesis
    by (simp add: parseUDPAddresses_def Split_Nil four_fields_def)
next
  case False
  have "map (\<lambda>pair. formatUDPAddressInfo (info_of_parts (Split pair CHR ''|'')))
          (filter four_fields ps) = filter four_fields ps" for ps
    by (induction ps) (simp_all add: format_info_of_parts)
  with False show ?thesis
    by (simp add: parseUDPAddresses_def parse_pairs_eq comp_def)
qed

lemma parseUDPAddresses_eq:
  "parseUDPAddresses input =
     (if input = [] then ([], [])
      else (map (\<lambda>pair. info_of_parts (Split pair CHR ''|''))
              (filter four_fields (Split input CHR '','')),
            map invalid_report
              (filter (\<lambda>pair. \<not> four_fields pair) (Split input CHR '',''))))"
  by (simp add: parseUDPAddresses_def parse_pairs_eq)

lemma parse_formatted:
  "parseUDPAddresses (formatUDPAddresses (fst (parseUDPAddresses input))) =
     (fst (parseUDPAddresses input), [])"
proof -
  define ps where "ps = filter four_fields (Split input CHR '','')"
  define recs where "recs = fst (parseUDPAddresses input)"
  have recs: "recs = map (\<lambda>pair. info_of_parts (Split pair CHR ''|'')) ps"
    by (cases "input = []")
       (simp_all add: recs_def ps_def parseUDPAddresses_eq Split_Nil four_fields_def)
  have fmt: "formatUDPAddresses recs = Join ps CHR '',''"
    by (simp add: formatUDPAddresses_def recs_def ps_def format_parsed)
  have four: "\<forall>p\<in>set ps. four_fields p" by (simp add: ps_def)
  have nosep: "\<forall>p\<in>set ps. CHR '','' \<notin> set p"
    by (auto simp: ps_def dest: Split_parts_no_sep)
  have "parseUDPAddresses (formatUDPAddresses recs) = (recs, [])"
  proof (cases ps)
    case Nil
    with recs show ?thesis
      by (simp add: formatUDPAddresses_def parseUDPAddresses_def)
  next
    case (Cons p ps')
    with four have "four_fields p" by simp
    then have "p \<noteq> []" by (auto simp: four_fields_def Split_Nil)
    with Cons have ne: "Join ps CHR '','' \<noteq> []" by (simp add: Join_Cons)
    from Cons nosep have split: "Split (Join ps CHR '','') CHR '','' = ps"
      by (intro Split_Join) simp_all
    from four have f1: "filter four_fields ps = ps" by simp
    from four have f2: "filter (\<lambda>pair. \<not> four_fields pair) ps = []" by simp
    show ?thesis
      unfolding fmt by (simp add: parseUDPAddresses_eq ne split f1 f2 recs)
  qed
  then show ?thesis by (simp only: recs_def)
qed

section \<open>The claims about parseUDPAddresses\<close>

text \<open>
  C9. \<open>parseUDPAddresses\<close> keeps the order of its input and copies the fields as they
  are: the records are, in order, those of the comma-separated pairs that have exactly
  four pipe-delimited fields, and joining a record's four fields with pipes gives the
  pair back, character by character. Nothing is validated, so the pair \<open>|||\<close> of four
  empty fields is a record. The empty input gives no record and prints nothing.
\<close>

theorem parseUDPAddresses_order_verbatim:
  "fst (parseUDPAddresses input) =
     map (\<lambda>pair. info_of_parts (Split pair CHR ''|''))
       (filter four_fields (Split input CHR '',''))
   \<and> map formatUDPAddressInfo (fst (parseUDPAddresses input)) =
       filter four_fields (Split input CHR '','')
   \<and> parseUDPAddresses ''|||'' =
       ([\<lparr>Address = [], Name = [], Resolution = [], Bandwidth = []\<rparr>], [])
   \<and> parseUDPAddresses [] = ([], [])"
proof -
  have "fst (parseUDPAddresses input) =
          map (\<lambda>pair. info_of_parts (Split pair CHR ''|''))
            (filter four_fields (Split input CHR '',''))"
    by (cases "input = []") (simp_all add: parseUDPAddresses_eq Split_Nil four_fields_def)
  moreover have "parseUDPAddresses ''|||'' =
      ([\<lparr>Address = [], Name = [], Resolution = [], Bandwidth = []\<rparr>], [])"
    by (simp add: parseUDPAddresses_def Split_step Split_Nil)
  moreover have "parseUDPAddresses [] = ([], [])"
    by (simp add: parseUDPAddresses_def)
  ultimately show ?thesis using format_parsed [of input] by (intro conjI)
qed

text \<open>
  C3. \<open>parseUDPAddresses\<close> is total and goes through the whole input: every pair becomes
  either a record (exactly four pipe-delimited fields) or one printed line that reports
  it, in order, and a rejected pair does not end the loop. Parsing is idempotent: the
  records, written in the format of the flag and parsed again, are the same records,
  with nothing reported. For the input of the spec it returns the two valid records and
  reports the one entry \<open>bad\<close>.
\<close>

theorem parseUDPAddresses_total_idempotent:
  "parseUDPAddresses input =
     (if input = [] then ([], [])
      else (map (\<lambda>pair. info_of_parts (Split pair CHR ''|''))
              (filter four_fields (Split input CHR '','')),
            map invalid_report
              (filter (\<lambda>pair. \<not> four_fields pair) (Split input CHR '',''))))
   \<and> parseUDPAddresses (formatUDPAddresses (fst (parseUDPAddresses input))) =
       (fst (parseUDPAddresses input), [])
   \<and> parseUDPAddresses ''a|b|1280x720|500000,bad,c|d|640x360|200000'' =
       ([\<lparr>Address = ''a'', Name = ''b'', Resolution = ''1280x720'', Bandwidth = ''500000''\<rparr>,
         \<lparr>Address = ''c'', Name = ''d'', Resolution = ''640x360'', Bandwidth = ''200000''\<rparr>],
        [''Invalid UDP address format: '' @ [squote] @ ''bad'' @ [squote, nl]])"
proof -
  have "parseUDPAddresses ''a|b|1280x720|500000,bad,c|d|640x360|200000'' =
       ([\<lparr>Address = ''a'', Name = ''b'', Resolution = ''1280x720'', Bandwidth = ''500000''\<rparr>,
         \<lparr>Address = ''c'', Name = ''d'', Resolution = ''640x360'', Bandwidth = ''200000''\<rparr>],
        [''Invalid UDP address format: '' @ [squote] @ ''bad'' @ [squote, nl]])"
    by (simp add: parseUDPAddresses_def Split_step Split_Nil invalid_report_def)
  with parseUDPAddresses_eq [of input] parse_formatted [of input] show ?thesis
    by (intro conjI)
qed

section \<open>Facts about GenerateM3U8String\<close>

lemma Split_valid_resolution:
  assumes "valid_resolution r"
  shows "Split r CHR ''x'' = [takeWhile (\<lambda>c. c \<noteq> CHR ''x'') r, height_of r]"
proof -
  from assms have c: "count_list r CHR ''x'' = 1" by (simp add: valid_resolution_def)
  then have "CHR ''x'' \<in> set r" by (metis count_list_0_iff zero_neq_one)
  then have S: "Split r CHR ''x'' = takeWhile (\<lambda>c. c \<noteq> CHR ''x'') r # Split (height_of r) CHR ''x''"
    by (subst Split.simps) (simp add: height_of_def)
  from c have "length (Split r CHR ''x'') = 2" by (simp add: length_Split)
  with S have "count_list (height_of r) CHR ''x'' = 0" by (simp add: length_Split)
  then have "CHR ''x'' \<notin> set (height_of r)" by (simp add: count_list_0_iff)
  with S show ?thesis by (simp add: Split_no_sep)
qed

lemma length_Split_2: "length (Split r CHR ''x'') = 2 \<longleftrightarrow> valid_resolution r"
  by (auto simp: length_Split valid_resolution_def)

lemma GenerateM3U8String_eq:
  "GenerateM3U8String bandwidth resolution =
     (if valid_resolution resolution then stream_inf_block ''stream'' bandwidth resolution
      else [])"
  by (simp add: GenerateM3U8String_def length_Split_2 Split_valid_resolution
      stream_inf_block_def)

lemma GenerateM3U8String_video_eq:
  "GenerateM3U8String_video bandwidth resolution =
     (if valid_resolution resolution then stream_inf_block ''video'' bandwidth resolution
      else [])"
  by (simp add: GenerateM3U8String_video_def length_Split_2 Split_valid_resolution
      stream_inf_block_def)

lemma valid_resolution_WxH:
  assumes "CHR ''x'' \<notin> set w" and "CHR ''x'' \<notin> set h"
  shows "valid_resolution (w @ ''x'' @ h)" and "height_of (w @ ''x'' @ h) = h"
proof -
  from assms have "count_list w CHR ''x'' = 0" and "count_list h CHR ''x'' = 0"
    by (simp_all add: count_list_0_iff)
  then show "valid_resolution (w @ ''x'' @ h)"
    by (simp add: valid_resolution_def)
  from assms(1) show "height_of (w @ ''x'' @ h) = h"
    by (simp add: height_of_def dropWhile_sep)
qed

text \<open>
  C4. For a resolution \<open>W\<close>x\<open>H\<close> (one \<open>x\<close>, so none in \<open>W\<close> and none in \<open>H\<close>) the
  builder returns exactly one block: the EXT-X-STREAM-INF line with the bandwidth given
  twice, as BANDWIDTH and as AVERAGE-BANDWIDTH, the codec tag \<open>avc1.42c01f\<close>, the
  resolution as given and the frame rate \<open>24.000\<close>, followed by the link. The link is
  \<open>stream_\<close>\<open>H\<close>\<open>p.m3u8\<close> in \<open>examples/muxer/main.go\<close> and \<open>video_\<close>\<open>H\<close>\<open>p.m3u8\<close> in the
  second program.
\<close>

theorem GenerateM3U8String_block:
  assumes "CHR ''x'' \<notin> set w" and "CHR ''x'' \<notin> set h"
  shows "GenerateM3U8String bandwidth (w @ ''x'' @ h) =
           ''#EXT-X-STREAM-INF:BANDWIDTH='' @ bandwidth @
           '',AVERAGE-BANDWIDTH='' @ bandwidth @
           '',CODECS='' @ [dquote] @ ''avc1.42c01f'' @ [dquote] @
           '',RESOLUTION='' @ w @ ''x'' @ h @ '',FRAME-RATE=24.000'' @ [nl] @
           ''stream_'' @ h @ ''p.m3u8'' @ [nl, nl]
         \<and> GenerateM3U8String_video bandwidth (w @ ''x'' @ h) =
           ''#EXT-X-STREAM-INF:BANDWIDTH='' @ bandwidth @
           '',AVERAGE-BANDWIDTH='' @ bandwidth @
           '',CODECS='' @ [dquote] @ ''avc1.42c01f'' @ [dquote] @
           '',RESOLUTION='' @ w @ ''x'' @ h @ '',FRAME-RATE=24.000'' @ [nl] @
           ''video_'' @ h @ ''p.m3u8'' @ [nl, nl]"
  using valid_resolution_WxH [OF assms]
  by (simp add: GenerateM3U8String_eq GenerateM3U8String_video_eq stream_inf_block_def)

theorem GenerateM3U8String_block_witness:
  "GenerateM3U8String ''1000000'' ''1280x720'' =
     ''#EXT-X-STREAM-INF:BANDWIDTH=1000000,AVERAGE-BANDWIDTH=1000000,CODECS='' @ [dquote] @
     ''avc1.42c01f'' @ [dquote] @ '',RESOLUTION=1280x720,FRAME-RATE=24.000'' @ [nl] @
     ''stream_720p.m3u8'' @ [nl, nl]
   \<and> GenerateM3U8String_video ''1000000'' ''1280x720'' =
     ''#EXT-X-STREAM-INF:BANDWIDTH=1000000,AVERAGE-BANDWIDTH=1000000,CODECS='' @ [dquote] @
     ''avc1.42c01f'' @ [dquote] @ '',RESOLUTION=1280x720,FRAME-RATE=24.000'' @ [nl] @
     ''video_720p.m3u8'' @ [nl, nl]"
proof -
  have w: "CHR ''x'' \<notin> set ''1280''" and h: "CHR ''x'' \<notin> set ''720''" by simp_all
  from GenerateM3U8String_block [OF w h, of "''1000000''"] show ?thesis by simp
qed

text \<open>
  The claim as it is written, with the link \<open>stream_\<close>\<open>H\<close>\<open>p.m3u8\<close> for every builder,
  fails on the builder of the second program.
\<close>

theorem GenerateM3U8String_video_link_counterexample:
  "GenerateM3U8String_video ''1000000'' ''1280x720'' \<noteq>
     ''#EXT-X-STREAM-INF:BANDWIDTH=1000000,AVERAGE-BANDWIDTH=1000000,CODECS='' @ [dquote] @
     ''avc1.42c01f'' @ [dquote] @ '',RESOLUTION=1280x720,FRAME-RATE=24.000'' @ [nl] @
     ''stream_720p.m3u8'' @ [nl, nl]"
  by (simp add: GenerateM3U8String_video_def Split_step Split_Nil)

section \<open>Facts about the assembly of the manifest\<close>

lemma blocks_of_Cons:
  "blocks_of link (info # udpInfo) =
     (if valid_resolution (Resolution info)
      then stream_inf_block link (Bandwidth info) (Resolution info) else []) @
     blocks_of link udpInfo"
  by (simp add: blocks_of_def)

lemma feed_loop_text:
  "feed_loop listen k udpInfo (m, mm) = Inr (m', mm') \<Longrightarrow>
   m' = m @ blocks_of ''stream'' udpInfo"
proof (induction udpInfo arbitrary: k m mm)
  case Nil
  then show ?case by (simp add: blocks_of_def)
next
  case (Cons info udpInfo)
  from Cons.prems have
    "feed_loop listen (Suc k) udpInfo
       (m @ GenerateM3U8String (Bandwidth info) (Resolution info),
        mm(Name info \<mapsto> k)) = Inr (m', mm')"
    by (simp add: Let_def split: if_splits)
  from Cons.IH [OF this] show ?case
    by (simp add: blocks_of_Cons GenerateM3U8String_eq)
qed

lemma blocks_of_stream_Cons:
  "blocks_of ''stream'' (info # udpInfo) =
     GenerateM3U8String (Bandwidth info) (Resolution info) @ blocks_of ''stream'' udpInfo"
  by (simp add: blocks_of_Cons GenerateM3U8String_eq)

lemma feed_loop_ok:
  "\<forall>i<length udpInfo. listen (k + i) (Address (udpInfo ! i)) \<Longrightarrow>
   \<exists>mm'. feed_loop listen k udpInfo (m, mm) = Inr (m @ blocks_of ''stream'' udpInfo, mm')"
proof (induction udpInfo arbitrary: k m mm)
  case Nil
  then show ?case by (simp add: blocks_of_def)
next
  case (Cons info udpInfo)
  from Cons.prems [rule_format, of 0] have first: "listen k (Address info)" by simp
  have "\<forall>i<length udpInfo. listen (Suc k + i) (Address (udpInfo ! i))"
  proof (intro allI impI)
    fix i assume "i < length udpInfo"
    with Cons.prems [rule_format, of "Suc i"]
    show "listen (Suc k + i) (Address (udpInfo ! i))" by simp
  qed
  from Cons.IH [OF this, of "m @ GenerateM3U8String (Bandwidth info) (Resolution info)"
      "mm(Name info \<mapsto> k)"]
  have IH: "\<exists>mm'. feed_loop listen (Suc k) udpInfo
       (m @ GenerateM3U8String (Bandwidth info) (Resolution info), mm(Name info \<mapsto> k)) =
     Inr ((m @ GenerateM3U8String (Bandwidth info) (Resolution info)) @
          blocks_of ''stream'' udpInfo, mm')" .
  have step: "feed_loop listen k (info # udpInfo) (m, mm) =
    feed_loop listen (Suc k) udpInfo
       (m @ GenerateM3U8String (Bandwidth info) (Resolution info), mm(Name info \<mapsto> k))"
    using first by (simp add: Let_def)
  show ?case
    unfolding step blocks_of_stream_Cons using IH by simp
qed

lemma feed_loop_video_text:
  "feed_loop_video listen k udpInfo m = Inr m' \<Longrightarrow> m' = m @ blocks_of ''video'' udpInfo"
proof (induction udpInfo arbitrary: k m)
  case Nil
  then show ?case by (simp add: blocks_of_def)
next
  case (Cons info udpInfo)
  from Cons.prems have
    "feed_loop_video listen (Suc k) udpInfo
       (m @ GenerateM3U8String_video (Bandwidth info) (Resolution info)) = Inr m'"
    by (simp add: Let_def split: if_splits)
  from Cons.IH [OF this] show ?case
    by (simp add: blocks_of_Cons GenerateM3U8String_video_eq)
qed

lemma feed_loop_video_ok:
  "\<forall>i<length udpInfo. listen (k + i) (Address (udpInfo ! i)) \<Longrightarrow>
   feed_loop_video listen k udpInfo m = Inr (m @ blocks_of ''video'' udpInfo)"
proof (induction udpInfo arbitrary: k m)
  case Nil
  then show ?case by (simp add: blocks_of_def)
next
  case (Cons info udpInfo)
  from Cons.prems [rule_format, of 0] have first: "listen k (Address info)" by simp
  have "\<forall>i<length udpInfo. listen (Suc k + i) (Address (udpInfo ! i))"
  proof (intro allI impI)
    fix i assume "i < length udpInfo"
    with Cons.prems [rule_format, of "Suc i"]
    show "listen (Suc k + i) (Address (udpInfo ! i))" by simp
  qed
  from Cons.IH [OF this] first show ?case
    by (simp add: Let_def blocks_of_Cons GenerateM3U8String_video_eq)
qed

lemma main_manifest_text:
  "main_manifest start_ok listen udps = Inr (m, mm) \<Longrightarrow>
   m = header @ blocks_of ''stream'' (fst (parseUDPAddresses udps))"
  by (auto simp: main_manifest_def Let_def split: if_splits sum.splits
      dest: feed_loop_text)

lemma main_manifest_video_text:
  "main_manifest_video start_ok listen udps = Inr m \<Longrightarrow>
   m = header @ blocks_of ''video'' (fst (parseUDPAddresses udps)) @
       stream_inf_block ''video'' ''1000000'' ''1280x720''"
proof -
  have v: "valid_resolution ''1280x720''" by (simp add: valid_resolution_def)
  assume "main_manifest_video start_ok listen udps = Inr m"
  then show ?thesis
    by (auto simp: main_manifest_video_def Let_def GenerateM3U8String_video_eq v
        split: if_splits sum.splits dest: feed_loop_video_text)
qed

lemma parse_two_feeds:
  "parseUDPAddresses two_feeds =
     ([\<lparr>Address = ''127.0.0.1:9000'', Name = ''A'', Resolution = ''640x360'',
         Bandwidth = ''200000''\<rparr>,
       \<lparr>Address = ''127.0.0.1:9001'', Name = ''B'', Resolution = ''1280x720'',
         Bandwidth = ''1000000''\<rparr>], [])"
  by (simp add: two_feeds_def parseUDPAddresses_def Split_step Split_Nil)

lemma valid_examples:
  "valid_resolution ''640x360''" "valid_resolution ''1280x720''" "\<not> valid_resolution ''720''"
  by (simp_all add: valid_resolution_def)

section \<open>The claims about the manifest\<close>

text \<open>
  C2. When the muxer starts and every address can be bound, the text that \<open>main\<close> of
  \<open>examples/muxer/main.go\<close> (lines 269 to 351) passes on as the master manifest is the
  fixed header followed by one EXT-X-STREAM-INF block per descriptor with a valid
  resolution, in the order of the descriptors, each block with its descriptor's
  bandwidth and a link \<open>stream_\<close>\<open>H\<close>\<open>p.m3u8\<close>. \<open>main\<close> of the second program,
  \<open>unnamed/part_000\<close>, builds the header and the same blocks with links
  \<open>video_\<close>\<open>H\<close>\<open>p.m3u8\<close>, and then appends one more block, for the bandwidth 1000000
  and the resolution 1280x720, whatever the descriptors are.
\<close>

theorem master_manifest_blocks:
  assumes "\<forall>i<length (fst (parseUDPAddresses udps)).
             listen i (Address (fst (parseUDPAddresses udps) ! i))"
  shows "(\<exists>muxMap. main_manifest True listen udps =
            Inr (header @ blocks_of ''stream'' (fst (parseUDPAddresses udps)), muxMap))
       \<and> main_manifest_video True listen udps =
            Inr (header @ blocks_of ''video'' (fst (parseUDPAddresses udps)) @
                 stream_inf_block ''video'' ''1000000'' ''1280x720'')"
proof
  from assms have "\<forall>i<length (fst (parseUDPAddresses udps)).
                     listen (0 + i) (Address (fst (parseUDPAddresses udps) ! i))"
    by simp
  from feed_loop_ok [OF this, of "[]" Map.empty]
  show "\<exists>muxMap. main_manifest True listen udps =
          Inr (header @ blocks_of ''stream'' (fst (parseUDPAddresses udps)), muxMap)"
    by (auto simp: main_manifest_def Let_def)
next
  from assms have "\<forall>i<length (fst (parseUDPAddresses udps)).
                     listen (0 + i) (Address (fst (parseUDPAddresses udps) ! i))"
    by simp
  from feed_loop_video_ok [OF this, of "[]"]
  show "main_manifest_video True listen udps =
          Inr (header @ blocks_of ''video'' (fst (parseUDPAddresses udps)) @
               stream_inf_block ''video'' ''1000000'' ''1280x720'')"
    by (simp add: main_manifest_video_def Let_def GenerateM3U8String_video_eq valid_examples)
qed

theorem master_manifest_blocks_witness:
  "(\<exists>muxMap. main_manifest True listen_ok two_feeds =
      Inr (header @ stream_inf_block ''stream'' ''200000'' ''640x360'' @
           stream_inf_block ''stream'' ''1000000'' ''1280x720'', muxMap))
   \<and> occurrences
       (header @ stream_inf_block ''stream'' ''200000'' ''640x360'' @
        stream_inf_block ''stream'' ''1000000'' ''1280x720'') ''#EXT-X-STREAM-INF'' = 2
   \<and> main_manifest_video True listen_ok two_feeds =
      Inr (header @ stream_inf_block ''video'' ''200000'' ''640x360'' @
           stream_inf_block ''video'' ''1000000'' ''1280x720'' @
           stream_inf_block ''video'' ''1000000'' ''1280x720'')"
proof -
  have bound: "\<forall>i<length (fst (parseUDPAddresses two_feeds)).
                 listen_ok i (Address (fst (parseUDPAddresses two_feeds) ! i))"
    by (simp add: listen_ok_def)
  have occ: "occurrences
       (header @ stream_inf_block ''stream'' ''200000'' ''640x360'' @
        stream_inf_block ''stream'' ''1000000'' ''1280x720'') ''#EXT-X-STREAM-INF'' = 2"
    by (simp add: header_def stream_inf_block_def height_of_def)
  from master_manifest_blocks [where udps = two_feeds and listen = listen_ok, OF bound] occ
  show ?thesis
    by (simp add: parse_two_feeds blocks_of_def valid_examples)
qed

text \<open>
  The claim as it is written fails on the second program: for two feeds with the
  bandwidths 200000 and 1000000, at addresses that can be bound, its manifest has three
  EXT-X-STREAM-INF blocks, the last two alike, and is not the header followed by one
  block per feed.
\<close>

theorem master_manifest_extra_block_counterexample:
  "main_manifest_video True listen_ok two_feeds =
     Inr (header @ stream_inf_block ''video'' ''200000'' ''640x360'' @
          stream_inf_block ''video'' ''1000000'' ''1280x720'' @
          stream_inf_block ''video'' ''1000000'' ''1280x720'')
   \<and> main_manifest_video True listen_ok two_feeds \<noteq>
     Inr (header @ stream_inf_block ''video'' ''200000'' ''640x360'' @
          stream_inf_block ''video'' ''1000000'' ''1280x720'')
   \<and> occurrences
       (header @ stream_inf_block ''video'' ''200000'' ''640x360'' @
        stream_inf_block ''video'' ''1000000'' ''1280x720'' @
        stream_inf_block ''video'' ''1000000'' ''1280x720'') ''#EXT-X-STREAM-INF'' = 3"
proof -
  have m: "main_manifest_video True listen_ok two_feeds =
     Inr (header @ stream_inf_block ''video'' ''200000'' ''640x360'' @
          stream_inf_block ''video'' ''1000000'' ''1280x720'' @
          stream_inf_block ''video'' ''1000000'' ''1280x720'')"
    by (simp add: main_manifest_video_def parse_two_feeds listen_ok_def
        GenerateM3U8String_video_eq valid_examples)
  have ne: "stream_inf_block ''video'' ''1000000'' ''1280x720'' \<noteq> []"
    by (simp add: stream_inf_block_def)
  have occ: "occurrences
       (header @ stream_inf_block ''video'' ''200000'' ''640x360'' @
        stream_inf_block ''video'' ''1000000'' ''1280x720'' @
        stream_inf_block ''video'' ''1000000'' ''1280x720'') ''#EXT-X-STREAM-INF'' = 3"
    by (simp add: header_def stream_inf_block_def height_of_def)
  from m ne occ show ?thesis by simp
qed

text \<open>
  C6. The manifest builder is deterministic. Two runs of \<open>main\<close> on the same value of
  the flag that both get as far as the manifest produce the same text, whatever the
  muxer and the sockets answered in each run; this holds for both programs. The text of
  one block is a fixed function of the bandwidth and the resolution.
\<close>

theorem manifest_deterministic:
  "(main_manifest start_ok listen udps = Inr (m, mm) \<and>
    main_manifest start_ok' listen' udps = Inr (m', mm') \<longrightarrow> m = m')
   \<and> (main_manifest_video start_ok listen udps = Inr v \<and>
      main_manifest_video start_ok' listen' udps = Inr v' \<longrightarrow> v = v')
   \<and> GenerateM3U8String bandwidth resolution =
       (if valid_resolution resolution then stream_inf_block ''stream'' bandwidth resolution
        else [])
   \<and> GenerateM3U8String_video bandwidth resolution =
       (if valid_resolution resolution then stream_inf_block ''video'' bandwidth resolution
        else [])"
proof (intro conjI impI)
  assume "main_manifest start_ok listen udps = Inr (m, mm) \<and>
          main_manifest start_ok' listen' udps = Inr (m', mm')"
  then show "m = m'" by (auto dest!: main_manifest_text)
next
  assume "main_manifest_video start_ok listen udps = Inr v \<and>
          main_manifest_video start_ok' listen' udps = Inr v'"
  then show "v = v'" by (auto dest!: main_manifest_video_text)
qed (rule GenerateM3U8String_eq GenerateM3U8String_video_eq)+

theorem manifest_deterministic_witness:
  "main_manifest True listen_ok two_feeds =
     Inr (header @ stream_inf_block ''stream'' ''200000'' ''640x360'' @
          stream_inf_block ''stream'' ''1000000'' ''1280x720'',
          [''A'' \<mapsto> 0, ''B'' \<mapsto> 1])
   \<and> main_manifest True listen_three two_feeds =
     Inr (header @ stream_inf_block ''stream'' ''200000'' ''640x360'' @
          stream_inf_block ''stream'' ''1000000'' ''1280x720'',
          [''A'' \<mapsto> 0, ''B'' \<mapsto> 1])
   \<and> main_manifest_video True listen_ok two_feeds =
     main_manifest_video True listen_three two_feeds
   \<and> main_manifest_video True listen_ok two_feeds =
     Inr (header @ stream_inf_block ''video'' ''200000'' ''640x360'' @
          stream_inf_block ''video'' ''1000000'' ''1280x720'' @
          stream_inf_block ''video'' ''1000000'' ''1280x720'')"
proof -
  obtain m mm where r: "main_manifest True listen_ok two_feeds = Inr (m, mm)"
    by (simp add: main_manifest_def parse_two_feeds listen_ok_def)
  obtain m' mm' where r': "main_manifest True listen_three two_feeds = Inr (m', mm')"
    by (simp add: main_manifest_def parse_two_feeds listen_three_def)
  obtain v where w: "main_manifest_video True listen_ok two_feeds = Inr v"
    by (simp add: main_manifest_video_def parse_two_feeds listen_ok_def)
  obtain v' where w': "main_manifest_video True listen_three two_feeds = Inr v'"
    by (simp add: main_manifest_video_def parse_two_feeds listen_three_def)
  from manifest_deterministic
         [of True listen_ok two_feeds m mm True listen_three m' mm' v v'] r r' w w'
  have same: "m = m'" "v = v'" by simp_all
  from r have "m = header @ stream_inf_block ''stream'' ''200000'' ''640x360'' @
                 stream_inf_block ''stream'' ''1000000'' ''1280x720''"
    and "mm = [''A'' \<mapsto> 0, ''B'' \<mapsto> 1]"
    by (simp_all add: main_manifest_def parse_two_feeds listen_ok_def
        GenerateM3U8String_eq valid_examples)
  moreover from r' have "mm' = [''A'' \<mapsto> 0, ''B'' \<mapsto> 1]"
    by (simp add: main_manifest_def parse_two_feeds listen_three_def)
  moreover from w have "v = header @ stream_inf_block ''video'' ''200000'' ''640x360'' @
          stream_inf_block ''video'' ''1000000'' ''1280x720'' @
          stream_inf_block ''video'' ''1000000'' ''1280x720''"
    by (simp add: main_manifest_video_def parse_two_feeds listen_ok_def
        GenerateM3U8String_video_eq valid_examples)
  ultimately show ?thesis using r r' w w' same by simp
qed

text \<open>
  C7. A descriptor whose resolution does not contain exactly one \<open>x\<close> gets no block:
  the builder returns the empty text for it. Its presence in the list changes nothing of
  the text built for the other descriptors: the loop of \<open>main\<close> builds the same text
  with it and without it. Both hold for both programs.
\<close>

theorem invalid_resolution_skipped:
  assumes "\<not> valid_resolution (Resolution d)"
  shows "GenerateM3U8String (Bandwidth d) (Resolution d) = []
       \<and> GenerateM3U8String_video (Bandwidth d) (Resolution d) = []
       \<and> (feed_loop listen 0 (pre @ d # post) ([], Map.empty) = Inr (m, mm) \<and>
          feed_loop listen' 0 (pre @ post) ([], Map.empty) = Inr (m', mm') \<longrightarrow> m = m')
       \<and> (feed_loop_video listen 0 (pre @ d # post) [] = Inr v \<and>
          feed_loop_video listen' 0 (pre @ post) [] = Inr v' \<longrightarrow> v = v')"
proof -
  from assms have skip: "blocks_of link (pre @ d # post) = blocks_of link (pre @ post)" for link
    by (simp add: blocks_of_def)
  from assms have "GenerateM3U8String (Bandwidth d) (Resolution d) = []"
    and "GenerateM3U8String_video (Bandwidth d) (Resolution d) = []"
    by (simp_all add: GenerateM3U8String_eq GenerateM3U8String_video_eq)
  moreover have "m = m'"
    if "feed_loop listen 0 (pre @ d # post) ([], Map.empty) = Inr (m, mm)"
      and "feed_loop listen' 0 (pre @ post) ([], Map.empty) = Inr (m', mm')"
    using feed_loop_text [OF that(1)] feed_loop_text [OF that(2)] skip by simp
  moreover have "v = v'"
    if "feed_loop_video listen 0 (pre @ d # post) [] = Inr v"
      and "feed_loop_video listen' 0 (pre @ post) [] = Inr v'"
    using feed_loop_video_text [OF that(1)] feed_loop_video_text [OF that(2)] skip by simp
  ultimately show ?thesis by blast
qed

theorem invalid_resolution_skipped_witness:
  "\<not> valid_resolution (Resolution feed_720)
   \<and> GenerateM3U8String ''500000'' ''720'' = []
   \<and> GenerateM3U8String_video ''500000'' ''720'' = []
   \<and> (\<exists>muxMap. feed_loop listen_ok 0 [feed_A, feed_720, feed_B] ([], Map.empty) =
         Inr (stream_inf_block ''stream'' ''200000'' ''640x360'' @
              stream_inf_block ''stream'' ''1000000'' ''1280x720'', muxMap))
   \<and> (\<exists>muxMap. feed_loop listen_ok 0 [feed_A, feed_B] ([], Map.empty) =
         Inr (stream_inf_block ''stream'' ''200000'' ''640x360'' @
              stream_inf_block ''stream'' ''1000000'' ''1280x720'', muxMap))
   \<and> feed_loop_video listen_ok 0 [feed_A, feed_720, feed_B] [] =
       Inr (stream_inf_block ''video'' ''200000'' ''640x360'' @
            stream_inf_block ''video'' ''1000000'' ''1280x720'')
   \<and> feed_loop_video listen_ok 0 [feed_A, feed_B] [] =
       Inr (stream_inf_block ''video'' ''200000'' ''640x360'' @
            stream_inf_block ''video'' ''1000000'' ''1280x720'')"
proof -
  have bad: "\<not> valid_resolution (Resolution feed_720)"
    by (simp add: feed_720_def valid_examples)
  have fields: "Bandwidth feed_720 = ''500000''" "Resolution feed_720 = ''720''"
    by (simp_all add: feed_720_def)
  note inst = invalid_resolution_skipped [OF bad, unfolded fields]
  have e1: "GenerateM3U8String ''500000'' ''720'' = []"
    by (rule inst [THEN conjunct1])
  have e2: "GenerateM3U8String_video ''500000'' ''720'' = []"
    by (rule inst [THEN conjunct2, THEN conjunct1])
  have a1: "\<exists>muxMap. feed_loop listen_ok 0 [feed_A, feed_720, feed_B] ([], Map.empty) =
         Inr (stream_inf_block ''stream'' ''200000'' ''640x360'' @
              stream_inf_block ''stream'' ''1000000'' ''1280x720'', muxMap)"
    by (simp add: feed_A_def feed_B_def feed_720_def listen_ok_def GenerateM3U8String_eq
        valid_examples)
  have a2: "\<exists>muxMap. feed_loop listen_ok 0 [feed_A, feed_B] ([], Map.empty) =
         Inr (stream_inf_block ''stream'' ''200000'' ''640x360'' @
              stream_inf_block ''stream'' ''1000000'' ''1280x720'', muxMap)"
    by (simp add: feed_A_def feed_B_def listen_ok_def GenerateM3U8String_eq valid_examples)
  have b1: "feed_loop_video listen_ok 0 [feed_A, feed_720, feed_B] [] =
       Inr (stream_inf_block ''video'' ''200000'' ''640x360'' @
            stream_inf_block ''video'' ''1000000'' ''1280x720'')"
    by (simp add: feed_A_def feed_B_def feed_720_def listen_ok_def
        GenerateM3U8String_video_eq valid_examples)
  have b2: "feed_loop_video listen_ok 0 [feed_A, feed_B] [] =
       Inr (stream_inf_block ''video'' ''200000'' ''640x360'' @
            stream_inf_block ''video'' ''1000000'' ''1280x720'')"
    by (simp add: feed_A_def feed_B_def listen_ok_def GenerateM3U8String_video_eq
        valid_examples)
  from bad e1 e2 a1 a2 b1 b2 show ?thesis by (intro conjI)
qed

section \<open>Facts about the handler\<close>

lemma take_eq_iff_prefix: "take (length sub) s = sub \<longleftrightarrow> (\<exists>b. s = sub @ b)"
  by (metis append_eq_conv_conj append_take_drop_id)

lemma Contains_iff: "Contains s sub \<longleftrightarrow> (\<exists>a b. s = a @ sub @ b)"
proof (induction s)
  case Nil
  then show ?case by auto
next
  case (Cons c s)
  have "(\<exists>a b. c # s = a @ sub @ b) \<longleftrightarrow>
        (\<exists>b. c # s = sub @ b) \<or> (\<exists>a b. s = a @ sub @ b)"
  proof
    assume "\<exists>a b. c # s = a @ sub @ b"
    then obtain a b where ab: "c # s = a @ sub @ b" by blast
    show "(\<exists>b. c # s = sub @ b) \<or> (\<exists>a b. s = a @ sub @ b)"
    proof (cases a)
      case Nil
      with ab show ?thesis by auto
    next
      case (Cons x a')
      with ab have "s = a' @ sub @ b" by simp
      then show ?thesis by blast
    qed
  next
    assume "(\<exists>b. c # s = sub @ b) \<or> (\<exists>a b. s = a @ sub @ b)"
    then show "\<exists>a b. c # s = a @ sub @ b"
    proof
      assume "\<exists>b. c # s = sub @ b"
      then obtain b where "c # s = [] @ sub @ b" by auto
      then show ?thesis by blast
    next
      assume "\<exists>a b. s = a @ sub @ b"
      then obtain a b where "c # s = (c # a) @ sub @ b" by auto
      then show ?thesis by blast
    qed
  qed
  with Cons show ?case by (simp add: take_eq_iff_prefix del: take_Suc_Cons)
qed

lemma range_muxMap_NotFound:
  "\<forall>(k, v)\<in>set entries. \<not> Contains path k \<Longrightarrow> range_muxMap entries path = NotFound"
  by (induction entries) auto

lemma range_muxMap_Handle:
  "(\<exists>k v. (k, v) \<in> set entries \<and> Contains path k) \<Longrightarrow>
   \<exists>k v. (k, v) \<in> set entries \<and> Contains path k \<and> range_muxMap entries path = Handle v"
proof (induction entries)
  case Nil
  then show ?case by simp
next
  case (Cons e entries)
  obtain k0 v0 where e: "e = (k0, v0)" by (cases e)
  show ?case
  proof (cases "Contains path k0")
    case True
    then have "(k0, v0) \<in> set (e # entries) \<and> Contains path k0 \<and>
               range_muxMap (e # entries) path = Handle v0"
      by (simp add: e)
    then show ?thesis by blast
  next
    case False
    with Cons.prems e have "\<exists>k v. (k, v) \<in> set entries \<and> Contains path k" by auto
    from Cons.IH [OF this] obtain k v where
      "(k, v) \<in> set entries" "Contains path k" "range_muxMap entries path = Handle v"
      by blast
    with False have "(k, v) \<in> set (e # entries) \<and> Contains path k \<and>
               range_muxMap (e # entries) path = Handle v"
      by (simp add: e)
    then show ?thesis by blast
  qed
qed

lemma range_of_two:
  assumes "range_of [k1 \<mapsto> v1, k2 \<mapsto> v2] entries" and "k1 \<noteq> k2"
  shows "set entries = {(k1, v1), (k2, v2)}"
proof -
  from assms(1) have d: "distinct (map fst entries)"
    and m: "map_of entries = [k1 \<mapsto> v1, k2 \<mapsto> v2]"
    by (simp_all add: range_of_def)
  have "(k, v) \<in> set entries \<longleftrightarrow> (k, v) \<in> {(k1, v1), (k2, v2)}" for k v
  proof -
    have "(k, v) \<in> set entries \<longleftrightarrow> map_of entries k = Some v"
      using d by simp
    also have "\<dots> \<longleftrightarrow> (k, v) \<in> {(k1, v1), (k2, v2)}"
      using assms(2) by (auto simp: m split: if_splits)
    finally show ?thesis .
  qed
  then show ?thesis by auto
qed

section \<open>The claims about the HTTP handler\<close>

text \<open>
  C8. With the registry \<open>{"480p": P1, "720p": P2}\<close>, in whatever order the map is
  iterated: a request whose path contains \<open>720p\<close> and does not contain \<open>480p\<close> is
  handled by \<open>P2\<close>; a request whose path contains \<open>720p\<close> is handled by one of the two
  muxers; and a request whose path contains neither name and is neither \<open>/\<close> nor
  \<open>/video.m3u8\<close> gets the not-found response.
\<close>

theorem registry_lookup:
  assumes "range_of [''480p'' \<mapsto> P1, ''720p'' \<mapsto> P2] entries"
  shows "(Contains path ''720p'' \<and> \<not> Contains path ''480p'' \<longrightarrow>
            handleM3u8Urls m3u8String index entries path = Handle P2)
       \<and> (Contains path ''720p'' \<longrightarrow>
            handleM3u8Urls m3u8String index entries path \<in> {Handle P1, Handle P2})
       \<and> (\<not> Contains path ''720p'' \<and> \<not> Contains path ''480p'' \<and>
          path \<noteq> ''/'' \<and> path \<noteq> ''/video.m3u8'' \<longrightarrow>
            handleM3u8Urls m3u8String index entries path = NotFound)"
proof -
  have set: "set entries = {(''480p'', P1), (''720p'', P2)}"
    by (rule range_of_two [OF assms]) simp
  have exact: "path \<noteq> ''/'' \<and> path \<noteq> ''/video.m3u8''" if "Contains path ''720p''"
    using that by auto
  have one: "range_muxMap entries path \<in> {Handle P1, Handle P2}"
    if "Contains path ''720p''"
  proof -
    from that set have "\<exists>k v. (k, v) \<in> set entries \<and> Contains path k" by auto
    from range_muxMap_Handle [OF this] set show ?thesis by auto
  qed
  have only: "range_muxMap entries path = Handle P2"
    if "Contains path ''720p''" and "\<not> Contains path ''480p''"
  proof -
    from that set have "\<exists>k v. (k, v) \<in> set entries \<and> Contains path k" by auto
    from range_muxMap_Handle [OF this] set that(2) show ?thesis by auto
  qed
  have none: "range_muxMap entries path = NotFound"
    if "\<not> Contains path ''720p''" and "\<not> Contains path ''480p''"
    using that set by (intro range_muxMap_NotFound) auto
  show ?thesis
    using exact one only none by (auto simp: handleM3u8Urls_def)
qed

theorem registry_lookup_witness:
  "range_of [''480p'' \<mapsto> 1, ''720p'' \<mapsto> 2] [(''720p'', 2::nat), (''480p'', 1)]
   \<and> Contains ''/720p_stream.m3u8'' ''720p'' \<and> \<not> Contains ''/720p_stream.m3u8'' ''480p''
   \<and> handleM3u8Urls [] [] [(''720p'', 2::nat), (''480p'', 1)] ''/720p_stream.m3u8'' = Handle 2
   \<and> \<not> Contains ''/favicon.ico'' ''720p'' \<and> \<not> Contains ''/favicon.ico'' ''480p''
   \<and> handleM3u8Urls [] [] [(''720p'', 2::nat), (''480p'', 1)] ''/favicon.ico'' = NotFound"
proof -
  have r: "range_of [''480p'' \<mapsto> 1, ''720p'' \<mapsto> 2] [(''720p'', 2::nat), (''480p'', 1)]"
    by (auto simp: range_of_def)
  have c: "Contains ''/720p_stream.m3u8'' ''720p''" "\<not> Contains ''/720p_stream.m3u8'' ''480p''"
    "\<not> Contains ''/favicon.ico'' ''720p''" "\<not> Contains ''/favicon.ico'' ''480p''"
    by simp_all
  from registry_lookup [OF r, of "''/720p_stream.m3u8''" "[]" "[]"] c
  have h: "handleM3u8Urls [] [] [(''720p'', 2::nat), (''480p'', 1)] ''/720p_stream.m3u8'' = Handle 2"
    by blast
  from registry_lookup [OF r, of "''/favicon.ico''" "[]" "[]"] c
  have n: "handleM3u8Urls [] [] [(''720p'', 2::nat), (''480p'', 1)] ''/favicon.ico'' = NotFound"
    by simp
  from r c h n show ?thesis by (intro conjI)
qed

text \<open>
  The claim as it is written, that every path containing \<open>720p\<close> is handled by \<open>P2\<close>,
  fails for a path that contains both names when the iteration meets \<open>480p\<close> first.
\<close>

theorem registry_lookup_both_names_counterexample:
  "range_of (map_of [(''480p'', 1::nat), (''720p'', 2)]) [(''480p'', 1), (''720p'', 2)]
   \<and> Contains ''/480p/720p.m3u8'' ''720p''
   \<and> handleM3u8Urls [] [] [(''480p'', 1::nat), (''720p'', 2)] ''/480p/720p.m3u8'' = Handle 1
   \<and> handleM3u8Urls [] [] [(''480p'', 1::nat), (''720p'', 2)] ''/480p/720p.m3u8'' \<noteq> Handle 2"
  by (simp add: range_of_def handleM3u8Urls_def)

text \<open>
  C10. The handler compares the path with \<open>/video.m3u8\<close> and with \<open>/\<close> before it looks
  at the registry. For every registry, these two paths get the master manifest with the
  content type \<open>application/vnd.apple.mpegurl\<close> and the landing page with the content
  type \<open>text/html\<close>, both with status 200. This also holds for a registry with a name
  that occurs in the path, such as \<open>video\<close> or \<open>/\<close>, which the loop over the registry
  alone would match.
\<close>

theorem exact_paths_first:
  "handleM3u8Urls m3u8String index entries ''/video.m3u8'' =
     Response ''application/vnd.apple.mpegurl'' 200 m3u8String
   \<and> handleM3u8Urls m3u8String index entries ''/'' = Response ''text/html'' 200 index
   \<and> range_muxMap [(''video'', P)] ''/video.m3u8'' = Handle P
   \<and> handleM3u8Urls m3u8String index [(''video'', P)] ''/video.m3u8'' =
     Response ''application/vnd.apple.mpegurl'' 200 m3u8String
   \<and> range_muxMap [(''/'', P)] ''/'' = Handle P
   \<and> handleM3u8Urls m3u8String index [(''/'', P)] ''/'' = Response ''text/html'' 200 index"
  by (simp add: handleM3u8Urls_def)

section \<open>Facts about the timestamp decoder\<close>

lemma signed_diff_forward:
  assumes "forward_step a b"
  shows "signed_diff (b mod clock_modulus) (a mod clock_modulus) = b - a"
proof -
  from assms have range: "0 \<le> b - a" "b - a < 2 ^ 32"
    by (simp_all add: forward_step_def clock_modulus_def)
  have "(b mod clock_modulus - a mod clock_modulus) mod clock_modulus =
        (b - a) mod clock_modulus"
    by (simp add: mod_diff_eq)
  also from range have "\<dots> = b - a"
    by (simp add: clock_modulus_def)
  finally show ?thesis
    using range by (simp add: signed_diff_def Let_def clock_modulus_def)
qed

lemma decode_all_Some:
  "successively forward_step (t # ts) \<Longrightarrow> prev d = t mod clock_modulus \<Longrightarrow>
   decode_all (Some d) (map (\<lambda>x. x mod clock_modulus) ts) =
     map (\<lambda>x. overall d + (x - t)) ts"
proof (induction ts arbitrary: d t)
  case Nil
  then show ?case by simp
next
  case (Cons u us)
  from Cons.prems(1) have step: "forward_step t u" and rest: "successively forward_step (u # us)"
    by simp_all
  define d' where "d' = \<lparr>prev = u mod clock_modulus, overall = overall d + (u - t)\<rparr>"
  have on: "onData (Some d) (u mod clock_modulus) = (Some d', overall d + (u - t))"
    using signed_diff_forward [OF step] Cons.prems(2)
    by (simp add: onData_def Decode_def Let_def d'_def)
  have "prev d' = u mod clock_modulus" by (simp add: d'_def)
  from Cons.IH [OF rest this] have
    "decode_all (Some d') (map (\<lambda>x. x mod clock_modulus) us) =
       map (\<lambda>x. overall d + (x - t)) us"
    by (simp add: d'_def)
  with on show ?case by simp
qed

lemma decode_all_None:
  assumes "successively forward_step ts"
  shows "decode_all None (map (\<lambda>x. x mod clock_modulus) ts) = map (\<lambda>x. x - hd ts) ts"
proof (cases ts)
  case Nil
  then show ?thesis by simp
next
  case (Cons t us)
  define d where "d = \<lparr>prev = t mod clock_modulus, overall = 0\<rparr>"
  have zero: "signed_diff (t mod clock_modulus) (t mod clock_modulus) = 0"
    by (simp add: signed_diff_def clock_modulus_def)
  have on: "onData None (t mod clock_modulus) = (Some d, 0)"
    using zero by (simp add: onData_def Decode_def NewTimeDecoder_def Let_def d_def)
  have "prev d = t mod clock_modulus" by (simp add: d_def)
  with assms Cons have
    "decode_all (Some d) (map (\<lambda>x. x mod clock_modulus) us) = map (\<lambda>x. overall d + (x - t)) us"
    by (intro decode_all_Some) simp_all
  with on Cons show ?thesis by (simp add: d_def)
qed

lemma forward_sorted: "successively forward_step ts \<Longrightarrow> sorted ts"
proof -
  assume "successively forward_step ts"
  then have "successively (\<le>) ts"
    by (rule successively_mono) (simp add: forward_step_def)
  then show ?thesis
    by (simp add: successively_conv_sorted_wrt [OF transp_on_le])
qed

section \<open>The claim about the timestamps\<close>

text \<open>
  C1. Let the raw values be the values, modulo \<open>2^33\<close>, of a clock that never runs
  backward and advances by less than \<open>2^32\<close> ticks, half the modulus, from one sample to
  the next. Then the decoded value of every sample is its distance from the first sample,
  so the decoded sequence is non-decreasing, across any number of wraparounds. The raw
  sequence \<open>[M - 10, M - 5, 3]\<close> with \<open>M = 2^33\<close> decodes to \<open>[0, 5, 13]\<close>, which is
  strictly increasing.
\<close>

theorem decode_monotone:
  assumes "successively forward_step ts"
  shows "decode_all None (map (\<lambda>t. t mod clock_modulus) ts) = map (\<lambda>t. t - hd ts) ts
       \<and> sorted (decode_all None (map (\<lambda>t. t mod clock_modulus) ts))
       \<and> decode_all None [clock_modulus - 10, clock_modulus - 5, 3] = [0, 5, 13]
       \<and> sorted_wrt (<) (decode_all None [clock_modulus - 10, clock_modulus - 5, 3])"
proof -
  have eq: "decode_all None (map (\<lambda>t. t mod clock_modulus) ts) = map (\<lambda>t. t - hd ts) ts"
    by (rule decode_all_None [OF assms])
  from forward_sorted [OF assms] have "sorted (map (\<lambda>t. t - hd ts) ts)"
    by (simp add: sorted_map sorted_wrt_mono_rel [of ts "(\<le>)"])
  with eq have mono: "sorted (decode_all None (map (\<lambda>t. t mod clock_modulus) ts))" by simp
  have ex: "decode_all None [clock_modulus - 10, clock_modulus - 5, 3] = [0, 5, 13]"
    by (simp add: onData_def Decode_def NewTimeDecoder_def signed_diff_def Let_def
        clock_modulus_def)
  from eq mono ex show ?thesis by simp
qed

theorem decode_monotone_witness:
  "successively forward_step [clock_modulus - 10, clock_modulus - 5, clock_modulus + 3]
   \<and> map (\<lambda>t. t mod clock_modulus) [clock_modulus - 10, clock_modulus - 5, clock_modulus + 3] =
       [clock_modulus - 10, clock_modulus - 5, 3]
   \<and> decode_all None [clock_modulus - 10, clock_modulus - 5, 3] = [0, 5, 13]
   \<and> sorted (decode_all None [clock_modulus - 10, clock_modulus - 5, 3])"
proof -
  have s: "successively forward_step
             [clock_modulus - 10, clock_modulus - 5, clock_modulus + 3]"
    by (simp add: forward_step_def clock_modulus_def)
  have m: "map (\<lambda>t. t mod clock_modulus)
             [clock_modulus - 10, clock_modulus - 5, clock_modulus + 3] =
           [clock_modulus - 10, clock_modulus - 5, 3]"
    by (simp add: clock_modulus_def)
  from decode_monotone [OF s] s m show ?thesis by simp
qed

text \<open>
  The claim as it is written, for every raw sequence that increases, fails when a step
  is half the modulus or more: the raw sequence \<open>[0, 2^32]\<close> increases and does not wrap
  around, and its second decoded value is negative.
\<close>

theorem decode_large_step_counterexample:
  "sorted [0, 2 ^ 32 :: int]
   \<and> 2 ^ 32 < clock_modulus
   \<and> decode_all None [0, 2 ^ 32] = [0, - (2 ^ 32)]
   \<and> \<not> sorted (decode_all None [0, 2 ^ 32])"
  by (simp add: onData_def Decode_def NewTimeDecoder_def signed_diff_def Let_def
      clock_modulus_def)


section \<open>Facts about the process\<close>

lemma run_Exited: "run (Exited p) events = Exited p"
  by (induction events) (simp_all add: run_def)

lemma run_Cons: "run p (ev # events) = run (deliver p ev) events"
  by (simp add: run_def)

lemma run_append: "run p (evs @ evs') = run (run p evs) evs'"
  by (simp add: run_def)

lemma read_loop_append:
  "\<forall>r\<in>set reads. r = None \<Longrightarrow> read_loop (reads @ reads') = read_loop reads'"
  by (induction reads) simp_all

lemma read_loop_first_error:
  "read_loop (replicate n None @ Some err # reads) = Some err"
  by (simp add: read_loop_append)

text \<open>
  The invariant of a running process: no feed has had a failed read. It holds at the
  start and after every read that succeeds.
\<close>

lemma healthy_nth:
  "\<forall>h\<in>set feeds. \<forall>r\<in>set h. r = None \<Longrightarrow> i < length feeds \<Longrightarrow>
   \<forall>r\<in>set (feeds ! i). r = None"
  using nth_mem by blast

lemma deliver_ok:
  assumes "\<forall>h\<in>set feeds. \<forall>r\<in>set h. r = None" and "i < length feeds"
  shows "deliver (Running feeds) (i, None) = Running (feeds[i := feeds ! i @ [None]])"
proof -
  from assms have "\<forall>r\<in>set (feeds ! i). r = None" by (rule healthy_nth)
  then have "read_loop (feeds ! i @ [None]) = None" by (simp add: read_loop_append)
  with assms(2) show ?thesis by (simp add: setupMPEGTSReader_def Let_def)
qed

lemma deliver_error:
  assumes "\<forall>h\<in>set feeds. \<forall>r\<in>set h. r = None" and "i < length feeds"
  shows "deliver (Running feeds) (i, Some err) = Exited err"
proof -
  from assms have "\<forall>r\<in>set (feeds ! i). r = None" by (rule healthy_nth)
  then have "read_loop (feeds ! i @ [Some err]) = Some err" by (simp add: read_loop_append)
  with assms(2) show ?thesis by (simp add: setupMPEGTSReader_def Let_def)
qed

lemma run_successes:
  assumes "\<forall>h\<in>set feeds. \<forall>r\<in>set h. r = None" and "\<forall>ev\<in>set events. snd ev = None"
  shows "\<exists>feeds'. run (Running feeds) events = Running feeds' \<and>
           length feeds' = length feeds \<and> (\<forall>h\<in>set feeds'. \<forall>r\<in>set h. r = None)"
  using assms
proof (induction events arbitrary: feeds)
  case Nil
  then show ?case by (simp add: run_def)
next
  case (Cons ev events)
  obtain i where ev: "ev = (i, None)" using Cons.prems(2) by (cases ev) auto
  show ?case
  proof (cases "i < length feeds")
    case True
    let ?feeds = "feeds[i := feeds ! i @ [None]]"
    have step: "deliver (Running feeds) ev = Running ?feeds"
      unfolding ev by (rule deliver_ok [OF Cons.prems(1) True])
    have healthy: "\<forall>h\<in>set ?feeds. \<forall>r\<in>set h. r = None"
    proof
      fix h assume "h \<in> set ?feeds"
      then have "h \<in> insert (feeds ! i @ [None]) (set feeds)"
        using set_update_subset_insert by fastforce
      with Cons.prems(1) healthy_nth [OF Cons.prems(1) True]
      show "\<forall>r\<in>set h. r = None" by auto
    qed
    from Cons.prems(2) have "\<forall>ev\<in>set events. snd ev = None" by simp
    from Cons.IH [OF healthy this] step show ?thesis by (simp add: run_Cons)
  next
    case False
    then have step: "deliver (Running feeds) ev = Running feeds" by (simp add: ev)
    from Cons.prems(2) have "\<forall>ev\<in>set events. snd ev = None" by simp
    from Cons.IH [OF Cons.prems(1) this] step show ?thesis by (simp add: run_Cons)
  qed
qed

section \<open>The claim about read failures\<close>

text \<open>
  C5. In the read loop, the first call of \<open>r.Read()\<close> that returns an error makes
  \<open>setupMPEGTSReader\<close> panic with that error. Nothing recovers the panic, so a read
  failure ends the process as a whole: with \<open>n\<close> feeds ingesting, after any reads that
  succeeded, a failed read of any feed \<open>i < n\<close> makes the process exit with that error,
  and whatever arrives afterwards for any feed is not processed. Reads that succeed leave
  the process running with all its feeds.
\<close>

theorem read_failure_ends_process:
  assumes "i < n" and "\<forall>ev\<in>set before. snd ev = None"
  shows "setupMPEGTSReader None None True (replicate k None @ Some err # reads) = Some err
       \<and> (\<exists>feeds. run (ingesting n) before = Running feeds \<and> length feeds = n)
       \<and> run (ingesting n) (before @ (i, Some err) # after) = Exited err"
proof -
  have start: "\<forall>h\<in>set (replicate n []). \<forall>r\<in>set h. r = None" by simp
  from run_successes [OF start assms(2)] obtain feeds where
    feeds: "run (ingesting n) before = Running feeds" "length feeds = n"
      "\<forall>h\<in>set feeds. \<forall>r\<in>set h. r = None"
    by (auto simp: ingesting_def)
  from feeds(2,3) assms(1) have "deliver (Running feeds) (i, Some err) = Exited err"
    by (intro deliver_error) simp_all
  with feeds(1) have "run (ingesting n) (before @ (i, Some err) # after) = Exited err"
    by (simp add: run_append run_Cons run_Exited)
  moreover have "setupMPEGTSReader None None True (replicate k None @ Some err # reads) = Some err"
    by (simp add: setupMPEGTSReader_def read_loop_first_error)
  ultimately show ?thesis using feeds(1,2) by blast
qed

theorem read_failure_ends_process_witness:
  "(0::nat) < 2
   \<and> snd (1::nat, None :: string option) = None
   \<and> setupMPEGTSReader None None True [None, None, Some ''i/o timeout'', None] =
       Some ''i/o timeout''
   \<and> run (ingesting 2) [(1, None)] = Running [[], [None]]
   \<and> run (ingesting 2) [(1, None), (0, Some ''i/o timeout''), (1, None), (1, None)] =
       Exited ''i/o timeout''"
proof -
  have l: "(0::nat) < 2" by simp
  have b: "\<forall>ev\<in>set [(1::nat, None :: string option)]. snd ev = None" by simp
  have r: "run (ingesting 2) [(1, None)] = Running [[], [None]]"
    by (simp add: run_def ingesting_def setupMPEGTSReader_def numeral_2_eq_2)
  from read_failure_ends_process [OF l b, of 2 "''i/o timeout''" "[None]" "[(1, None), (1, None)]"] r
  show ?thesis by (simp add: numeral_2_eq_2)
qed

text \<open>
  The claim as it is written, that a read failure ends the pipeline of its feed only,
  fails: after a failed read of feed 0 the process has exited, and the datagram for feed
  1 that a running process takes is not taken.
\<close>

theorem read_failure_siblings_counterexample:
  "run (ingesting 2) [(0, Some ''i/o timeout''), (1, None)] = Exited ''i/o timeout''
   \<and> run (ingesting 2) [(0, Some ''i/o timeout''), (1, None)] \<noteq> Running [[], [None]]
   \<and> run (ingesting 2) [(1, None)] = Running [[], [None]]"
  by (simp add: run_def ingesting_def setupMPEGTSReader_def numeral_2_eq_2)

end
